theory Spec2Isabelle
  imports Main "HOL-Library.AList" "HOL-Library.Sublist"
begin

section \<open>JavaScript values\<close>

text \<open>
  The alias manager is dynamically typed: an alias target is a string or a resolver
  function, a resolver may return anything or throw, and the validation code tests
  truthiness and \<open>typeof\<close>. Values are therefore a datatype. A string is a list of
  characters, one per UTF-16 code unit of the JavaScript string. An object is the list of
  its enumerable properties in enumeration order. A function value is a resolver
  \<open>(fromPath, request, alias)\<close> that returns a value or throws; resolvers are taken to be
  pure and to throw \<open>Error\<close> objects only. A number is an integer: all this program asks
  of a number is whether it is falsy and what its type is.
\<close>

datatype js_error = JsError string | JsTypeError string

datatype jsval =
    JUndefined
  | JNull
  | JBool bool
  | JNum int
  | JStr string
  | JObj "(string \<times> jsval) list"
  | JFunc "string \<Rightarrow> string \<Rightarrow> string \<Rightarrow> js_error + jsval"

datatype js_type = TUndefined | TObject | TBoolean | TNumber | TString | TFunction

fun message :: "js_error \<Rightarrow> string" where
  "message (JsError m) = m"
| "message (JsTypeError m) = m"

fun truthy :: "jsval \<Rightarrow> bool" where
  "truthy JUndefined = False"
| "truthy JNull = False"
| "truthy (JBool b) = b"
| "truthy (JNum n) = (n \<noteq> 0)"
| "truthy (JStr s) = (s \<noteq> [])"
| "truthy (JObj ps) = True"
| "truthy (JFunc f) = True"

fun typeof :: "jsval \<Rightarrow> js_type" where
  "typeof JUndefined = TUndefined"
| "typeof JNull = TObject"
| "typeof (JBool b) = TBoolean"
| "typeof (JNum n) = TNumber"
| "typeof (JStr s) = TString"
| "typeof (JObj ps) = TObject"
| "typeof (JFunc f) = TFunction"

fun is_null :: "jsval \<Rightarrow> bool" where
  "is_null JNull = True"
| "is_null v = False"

fun str_of :: "jsval \<Rightarrow> string" where
  "str_of (JStr s) = s"
| "str_of v = []"

section \<open>Plain objects used as dictionaries\<close>

text \<open>
  \<open>moduleAliases\<close> is a plain object. Its own keys are enumerated with the array-index
  keys (canonical decimal numerals below \<open>2^32 - 1\<close>) first, in ascending numeric order,
  and then the other keys in insertion order; assigning to an existing key keeps its
  place. Assigning to \<open>__proto__\<close> creates no own property.
\<close>

definition is_digit :: "char \<Rightarrow> bool" where
  "is_digit c = (c \<in> set ''0123456789'')"

definition dec_value :: "string \<Rightarrow> int" where
  "dec_value s = foldl (\<lambda>n c. 10 * n + (of_char c - 48)) 0 s"

definition array_index :: "string \<Rightarrow> int option" where
  "array_index k =
     (if k \<noteq> [] \<and> list_all is_digit k \<and> (k = ''0'' \<or> take 1 k \<noteq> ''0'')
         \<and> dec_value k < 4294967295
      then Some (dec_value k) else None)"

fun insert_index :: "int \<Rightarrow> string \<Rightarrow> 'v \<Rightarrow> (string \<times> 'v) list \<Rightarrow> (string \<times> 'v) list" where
  "insert_index n k v [] = [(k, v)]"
| "insert_index n k v (p # ps) =
     (case array_index (fst p) of
        Some m \<Rightarrow> if m < n then p # insert_index n k v ps else (k, v) # p # ps
      | None \<Rightarrow> (k, v) # p # ps)"

definition obj_set :: "string \<Rightarrow> 'v \<Rightarrow> (string \<times> 'v) list \<Rightarrow> (string \<times> 'v) list" where
  "obj_set k v ps =
     (if k = ''__proto__'' then ps
      else case (map_of ps k, array_index k) of
             (None, Some n) \<Rightarrow> insert_index n k v ps
           | _ \<Rightarrow> AList.update k v ps)"

definition obj_get :: "(string \<times> jsval) list \<Rightarrow> string \<Rightarrow> jsval" where
  "obj_get ps k = (case map_of ps k of Some v \<Rightarrow> v | None \<Rightarrow> JUndefined)"

definition object_keys :: "(string \<times> 'v) list \<Rightarrow> string list" where
  "object_keys ps = map fst ps"

section \<open>Paths\<close>

text \<open>
  \<open>nodePath\<close> is Node's own \<open>path\<close> module, not a file of this repository. Its POSIX
  \<open>normalize\<close> and \<open>join\<close> are written out here after their documented behaviour: empty
  and \<open>.\<close> segments are dropped, \<open>..\<close> removes the segment before it (and is kept in
  front of a relative path), a leading and a trailing slash are kept, and the empty path
  becomes \<open>.\<close>. Called with an argument that is not a string they throw a \<open>TypeError\<close>.
\<close>

fun split_slash :: "string \<Rightarrow> string list" where
  "split_slash [] = [[]]"
| "split_slash (c # cs) =
     (if c = CHR ''/'' then [] # split_slash cs
      else case split_slash cs of
             [] \<Rightarrow> [[c]]
           | s # ss \<Rightarrow> (c # s) # ss)"

fun join_slash :: "string list \<Rightarrow> string" where
  "join_slash [] = []"
| "join_slash [s] = s"
| "join_slash (s # t # ss) = s @ ''/'' @ join_slash (t # ss)"

fun normalize_segments :: "bool \<Rightarrow> string list \<Rightarrow> string list \<Rightarrow> string list" where
  "normalize_segments allowAboveRoot res [] = res"
| "normalize_segments allowAboveRoot res (seg # rest) =
     (if seg = [] \<or> seg = ''.'' then normalize_segments allowAboveRoot res rest
      else if seg = ''..'' then
        (if res \<noteq> [] \<and> last res \<noteq> ''..''
           then normalize_segments allowAboveRoot (butlast res) rest
         else if allowAboveRoot
           then normalize_segments allowAboveRoot (res @ [''..'']) rest
         else normalize_segments allowAboveRoot res rest)
      else normalize_segments allowAboveRoot (res @ [seg]) rest)"

definition posix_normalize :: "string \<Rightarrow> string" where
  "posix_normalize path =
     (if path = [] then ''.''
      else
        let isAbsolute = (hd path = CHR ''/'');
            trailingSeparator = (last path = CHR ''/'');
            res = join_slash (normalize_segments (\<not> isAbsolute) [] (split_slash path))
        in if res = [] then (if isAbsolute then ''/'' else if trailingSeparator then ''./'' else ''.'')
           else (if isAbsolute then ''/'' else []) @ res @ (if trailingSeparator then ''/'' else []))"

definition posix_join :: "string \<Rightarrow> string \<Rightarrow> string" where
  "posix_join a b =
     (let joined = (if a = [] then b else if b = [] then a else a @ ''/'' @ b)
      in if joined = [] then ''.'' else posix_normalize joined)"

definition invalid_path_arg :: js_error where
  "invalid_path_arg = JsTypeError ''The path argument must be of type string''"

fun path_join :: "jsval \<Rightarrow> jsval \<Rightarrow> js_error + jsval" where
  "path_join (JStr a) (JStr b) = Inr (JStr (posix_join a b))"
| "path_join a b = Inl invalid_path_arg"

fun path_normalize :: "jsval \<Rightarrow> js_error + jsval" where
  "path_normalize (JStr p) = Inr (JStr (posix_normalize p))"
| "path_normalize v = Inl invalid_path_arg"

section \<open>The manager's state\<close>

text \<open>
  The fields of \<open>ModuleAliasManager\<close>. \<open>performanceCache\<close> is a \<open>Map\<close>: an association list
  in insertion order, where \<open>set\<close> on a present key replaces the value in place and on a new
  key appends (\<open>AList.update\<close>), \<open>get\<close> is \<open>map_of\<close> and \<open>delete\<close> is \<open>AList.delete\<close>.
  \<open>watchers\<close> keeps the watched paths. \<open>errorLog\<close> collects the entries that \<open>log\<close> reports
  at level \<open>error\<close>, the only level reported whatever the debug flag; the entries of the
  other levels, the emitted events, the debug flag, the never written \<open>asyncResolvers\<close> and
  the \<open>paths\<close> arrays of the loaded modules are outside the model. Counters are natural numbers. \<open>Date.now()\<close> is the argument \<open>now\<close>,
  one reading for each call of the interface.
\<close>

record stats_rec =
  resolutions :: nat
  cacheHits :: nat
  aliasMatches :: nat

record performance_stats = stats_rec +
  cacheSize :: nat
  aliasCount :: nat
  pathCount :: nat

record cache_entry =
  cvalue :: jsval
  timestamp :: int

type_synonym log_entry = "string \<times> (string \<times> string) list"

record manager =
  modulePaths :: "string list"
  moduleAliases :: "(string \<times> jsval) list"
  moduleAliasNames :: "string list"
  performanceCache :: "(string \<times> cache_entry) list"
  watchers :: "string list"
  stats :: stats_rec
  errorLog :: "log_entry list"

definition new_manager :: manager where
  "new_manager =
     \<lparr>modulePaths = [], moduleAliases = [], moduleAliasNames = [], performanceCache = [],
      watchers = [],
      stats = \<lparr>resolutions = 0, cacheHits = 0, aliasMatches = 0\<rparr>,
      errorLog = []\<rparr>"

definition log_error :: "manager \<Rightarrow> string \<Rightarrow> (string \<times> string) list \<Rightarrow> manager" where
  "log_error m msg data = m\<lparr>errorLog := errorLog m @ [(msg, data)]\<rparr>"

section \<open>The resolution cache\<close>

definition getCachedResolution :: "int \<Rightarrow> manager \<Rightarrow> string \<Rightarrow> jsval \<times> manager" where
  "getCachedResolution now m key =
     (case map_of (performanceCache m) key of
        Some cached \<Rightarrow>
          if now - timestamp cached < 5000
          then (cvalue cached, m\<lparr>stats := (stats m)\<lparr>cacheHits := cacheHits (stats m) + 1\<rparr>\<rparr>)
          else (JNull, m)
      | None \<Rightarrow> (JNull, m))"

definition evict_oldest :: "(string \<times> cache_entry) list \<Rightarrow> (string \<times> cache_entry) list" where
  "evict_oldest c =
     (if length c > 1000
      then (case c of [] \<Rightarrow> c | (firstKey, e) # rest \<Rightarrow> AList.delete firstKey c)
      else c)"

definition setCachedResolution :: "int \<Rightarrow> manager \<Rightarrow> string \<Rightarrow> jsval \<Rightarrow> manager" where
  "setCachedResolution now m key v =
     m\<lparr>performanceCache :=
         evict_oldest (AList.update key \<lparr>cvalue = v, timestamp = now\<rparr> (performanceCache m))\<rparr>"

section \<open>The path matcher\<close>

fun indexOf_from :: "string \<Rightarrow> string \<Rightarrow> nat \<Rightarrow> int" where
  "indexOf_from [] search i = (if search = [] then int i else - 1)"
| "indexOf_from (c # cs) search i =
     (if prefix search (c # cs) then int i else indexOf_from cs search (i + 1))"

definition indexOf :: "string \<Rightarrow> string \<Rightarrow> int" where
  "indexOf s search = indexOf_from s search 0"

definition char_at :: "string \<Rightarrow> nat \<Rightarrow> char option" where
  "char_at s i = (if i < length s then Some (s ! i) else None)"

definition path_matches :: "string \<Rightarrow> string \<Rightarrow> bool" where
  "path_matches path alias =
     (if indexOf path alias = 0
      then (if length path = length alias then True
            else if char_at path (length alias) = Some CHR ''/''
                    \<or> char_at path (length alias) = Some (CHR 0x5C) then True
            else False)
      else False)"

definition match_key :: "string \<Rightarrow> string \<Rightarrow> string" where
  "match_key path alias = path @ '':'' @ alias"

definition isPathMatchesAlias :: "int \<Rightarrow> manager \<Rightarrow> string \<Rightarrow> string \<Rightarrow> jsval \<times> manager" where
  "isPathMatchesAlias now m path alias =
     (let cacheKey = match_key path alias;
          (cached, m1) = getCachedResolution now m cacheKey
      in if \<not> is_null cached then (cached, m1)
         else let matches = path_matches path alias
              in (JBool matches, setCachedResolution now m1 cacheKey (JBool matches)))"

section \<open>The resolver\<close>

text \<open>
  \<open>parent\<close> is the file name of the requesting module: \<open>None\<close> when there is no parent
  module or it has no file name. \<open>cwd\<close> is \<open>process.cwd()\<close>. The existence check of the
  target only writes a warning and is left out. The first component of the result is the
  returned value, or the error thrown. \<open>Array.prototype.sort\<close> is stable, and so is
  \<open>sort_key\<close>; the comparison \<open>b.length - a.length\<close> sorts by descending length.
\<close>

definition context_name :: "string option \<Rightarrow> string" where
  "context_name parent =
     (case parent of Some filename \<Rightarrow> if filename \<noteq> [] then filename else ''unknown''
      | None \<Rightarrow> ''unknown'')"

definition from_path :: "string \<Rightarrow> string option \<Rightarrow> string" where
  "from_path cwd parent =
     (case parent of Some filename \<Rightarrow> if filename \<noteq> [] then filename else cwd
      | None \<Rightarrow> cwd)"

definition resolve_key :: "string \<Rightarrow> string option \<Rightarrow> string" where
  "resolve_key request parent = ''resolve:'' @ request @ '':'' @ context_name parent"

definition invalid_handler :: "string \<Rightarrow> js_error" where
  "invalid_handler alias =
     JsError (''Custom handler function for alias '' @ [CHR 0x27] @ alias @ [CHR 0x27]
              @ '' must return a valid path string'')"

definition resolver_failed :: "manager \<Rightarrow> string \<Rightarrow> js_error \<Rightarrow> manager" where
  "resolver_failed m alias err =
     log_error m ''Custom alias resolver failed'' [(''alias'', alias), (''error'', message err)]"

definition apply_target ::
    "string \<Rightarrow> manager \<Rightarrow> string \<Rightarrow> string option \<Rightarrow> string \<Rightarrow> (js_error + jsval) \<times> manager" where
  "apply_target cwd m request parent alias =
     (let aliasTarget = obj_get (moduleAliases m) alias;
          remainder = JStr (drop (length alias) request)
      in case aliasTarget of
           JFunc handler \<Rightarrow>
             (case handler (from_path cwd parent) request alias of
                Inl err \<Rightarrow> (Inl err, resolver_failed m alias err)
              | Inr returned \<Rightarrow>
                  if \<not> truthy returned \<or> typeof returned \<noteq> TString
                  then (Inl (invalid_handler alias), resolver_failed m alias (invalid_handler alias))
                  else (path_join returned remainder, m))
         | _ \<Rightarrow> (path_join aliasTarget remainder, m))"

fun resolve_loop ::
    "string \<Rightarrow> int \<Rightarrow> manager \<Rightarrow> string \<Rightarrow> string option \<Rightarrow> string list
      \<Rightarrow> (js_error + jsval) \<times> manager" where
  "resolve_loop cwd now m request parent [] = (Inr (JStr request), m)"
| "resolve_loop cwd now m request parent (alias # rest) =
     (case isPathMatchesAlias now m request alias of
        (matched, m1) \<Rightarrow>
          if truthy matched
          then apply_target cwd
                 (m1\<lparr>stats := (stats m1)\<lparr>aliasMatches := aliasMatches (stats m1) + 1\<rparr>\<rparr>)
                 request parent alias
          else resolve_loop cwd now m1 request parent rest)"

definition sortedAliases :: "manager \<Rightarrow> string list" where
  "sortedAliases m = sort_key (\<lambda>a. - int (length a)) (moduleAliasNames m)"

definition resolveAlias ::
    "string \<Rightarrow> int \<Rightarrow> manager \<Rightarrow> string \<Rightarrow> string option \<Rightarrow> (js_error + jsval) \<times> manager" where
  "resolveAlias cwd now m request parent =
     (let m0 = m\<lparr>stats := (stats m)\<lparr>resolutions := resolutions (stats m) + 1\<rparr>\<rparr>;
          cacheKey = resolve_key request parent;
          (cached, m1) = getCachedResolution now m0 cacheKey
      in if \<not> is_null cached then (Inr cached, m1)
         else case resolve_loop cwd now m1 request parent (sortedAliases m1) of
                (Inl err, m2) \<Rightarrow> (Inl err, m2)
              | (Inr resolvedRequest, m2) \<Rightarrow>
                  (Inr resolvedRequest, setCachedResolution now m2 cacheKey resolvedRequest))"

section \<open>The alias table\<close>

text \<open>
  A call that can throw after it has changed the state returns the error, if any, with
  the state it leaves behind.
\<close>

definition addAlias :: "manager \<Rightarrow> jsval \<Rightarrow> jsval \<Rightarrow> js_error option \<times> manager" where
  "addAlias m alias target =
     (if \<not> truthy alias \<or> typeof alias \<noteq> TString
      then (Some (JsTypeError ''Alias must be a non-empty string''), m)
      else if \<not> truthy target \<or> (typeof target \<noteq> TString \<and> typeof target \<noteq> TFunction)
      then (Some (JsTypeError ''Target must be a non-empty string or function''), m)
      else
        let target' = (case target of JStr t \<Rightarrow> JStr (posix_normalize t) | _ \<Rightarrow> target);
            aliases = obj_set (str_of alias) target' (moduleAliases m)
        in (None, m\<lparr>moduleAliases := aliases, moduleAliasNames := object_keys aliases,
                     performanceCache := []\<rparr>))"

fun dec_digits :: "nat \<Rightarrow> string" where
  "dec_digits n =
     (if n < 10 then [char_of (48 + n)] else dec_digits (n div 10) @ [char_of (48 + n mod 10)])"

fun enum_props :: "jsval \<Rightarrow> (string \<times> jsval) list" where
  "enum_props (JObj ps) = ps"
| "enum_props (JStr s) = map (\<lambda>i. (dec_digits i, JStr [s ! i])) [0..<length s]"
| "enum_props v = []"

declare dec_digits.simps [simp del]

fun addAliases_loop :: "manager \<Rightarrow> (string \<times> jsval) list \<Rightarrow> js_error option \<times> manager" where
  "addAliases_loop m [] = (None, m)"
| "addAliases_loop m ((alias, target) # rest) =
     (case addAlias m (JStr alias) target of
        (Some err, m1) \<Rightarrow> (Some err, m1)
      | (None, m1) \<Rightarrow> addAliases_loop m1 rest)"

definition addAliases :: "manager \<Rightarrow> jsval \<Rightarrow> js_error option \<times> manager" where
  "addAliases m aliases =
     (if \<not> truthy aliases \<or> typeof aliases \<noteq> TObject
      then (Some (JsTypeError ''Aliases must be an object''), m)
      else addAliases_loop m (enum_props aliases))"

section \<open>Reloading from the configuration file\<close>

text \<open>
  \<open>required\<close> is what re-reading the configuration file gives: the parsed value, or the
  error of a file that cannot be found, read or parsed. \<open>base\<close> is the directory of the
  file. Reading a property of \<open>null\<close> or \<open>undefined\<close> throws.
\<close>

definition cannot_read_property :: js_error where
  "cannot_read_property = JsTypeError ''Cannot read properties of null or undefined''"

fun get_prop :: "jsval \<Rightarrow> string \<Rightarrow> js_error + jsval" where
  "get_prop JUndefined k = Inl cannot_read_property"
| "get_prop JNull k = Inl cannot_read_property"
| "get_prop (JObj ps) k = Inr (obj_get ps k)"
| "get_prop (JStr s) k =
     Inr (case array_index k of
            Some i \<Rightarrow> if i < int (length s) then JStr [s ! nat i] else JUndefined
          | None \<Rightarrow> JUndefined)"
| "get_prop v k = Inr JUndefined"

fun is_slash :: "jsval \<Rightarrow> bool" where
  "is_slash (JStr s) = (s = ''/'')"
| "is_slash v = False"

definition reload_target :: "string \<Rightarrow> jsval \<Rightarrow> js_error + jsval" where
  "reload_target base target =
     (case get_prop target ''0'' of
        Inl err \<Rightarrow> Inl err
      | Inr first \<Rightarrow> if \<not> is_slash first then path_join (JStr base) target else Inr target)"

fun reload_loop :: "manager \<Rightarrow> string \<Rightarrow> (string \<times> jsval) list \<Rightarrow> js_error option \<times> manager" where
  "reload_loop m base [] = (None, m)"
| "reload_loop m base ((alias, target) # rest) =
     (case reload_target base target of
        Inl err \<Rightarrow> (Some err, m)
      | Inr target' \<Rightarrow>
          (case addAlias m (JStr alias) target' of
             (Some err, m1) \<Rightarrow> (Some err, m1)
           | (None, m1) \<Rightarrow> reload_loop m1 base rest))"

definition reload_failed :: "manager \<Rightarrow> js_error \<Rightarrow> manager" where
  "reload_failed m err = log_error m ''Failed to reload aliases'' [(''error'', message err)]"

definition reloadAliases :: "manager \<Rightarrow> js_error + jsval \<Rightarrow> string \<Rightarrow> manager" where
  "reloadAliases m required base =
     (case required of
        Inl err \<Rightarrow> reload_failed m err
      | Inr packageJson \<Rightarrow>
          let m1 = m\<lparr>moduleAliases := [], moduleAliasNames := [], performanceCache := []\<rparr>
          in case get_prop packageJson ''_moduleAliases'' of
               Inl err \<Rightarrow> reload_failed m1 err
             | Inr found \<Rightarrow>
                 let aliases = (if truthy found then found else JObj [])
                 in case reload_loop m1 base (enum_props aliases) of
                      (Some err, m2) \<Rightarrow> reload_failed m2 err
                    | (None, m2) \<Rightarrow> m2)"

section \<open>Search paths, reset and statistics\<close>

definition addPath :: "manager \<Rightarrow> jsval \<Rightarrow> js_error option \<times> manager" where
  "addPath m path =
     (case path_normalize path of
        Inl err \<Rightarrow> (Some err, m)
      | Inr path' \<Rightarrow>
          if \<not> truthy path' \<or> typeof path' \<noteq> TString
          then (Some (JsTypeError ''Path must be a non-empty string''), m)
          else if str_of path' \<notin> set (modulePaths m)
          then (None, m\<lparr>modulePaths := modulePaths m @ [str_of path']\<rparr>)
          else (None, m))"

definition reset :: "manager \<Rightarrow> manager" where
  "reset m =
     m\<lparr>modulePaths := [], moduleAliases := [], moduleAliasNames := [], performanceCache := [],
       watchers := [],
       stats := \<lparr>resolutions = 0, cacheHits = 0, aliasMatches = 0\<rparr>\<rparr>"

definition getStats :: "manager \<Rightarrow> performance_stats" where
  "getStats m =
     \<lparr>resolutions = resolutions (stats m), cacheHits = cacheHits (stats m),
      aliasMatches = aliasMatches (stats m),
      cacheSize = length (performanceCache m),
      aliasCount = length (moduleAliasNames m),
      pathCount = length (modulePaths m)\<rparr>"

text \<open>The matcher as the specification words it.\<close>

definition spec_matches :: "string \<Rightarrow> string \<Rightarrow> bool" where
  "spec_matches path alias =
     (prefix alias path \<and>
      (path = alias \<or> char_at path (length alias) = Some CHR ''/''
        \<or> char_at path (length alias) = Some (CHR 0x5C)))"

section \<open>Conditions on the cache used in the statements\<close>

text \<open>
  \<open>cache_live\<close>: the store holds an entry under the key that has not expired at \<open>now\<close>.
  \<open>match_cache_sound\<close>: whatever the store holds under the matcher's keys for this request
  and the registered aliases agrees, read as a condition, with what the matcher computes.
  \<open>longest_match\<close>: the alias covers the request, and no registered alias that covers the
  request is longer. \<open>put_all\<close> inserts a list of keys, one after the other.
\<close>

definition cache_live :: "int \<Rightarrow> manager \<Rightarrow> string \<Rightarrow> bool" where
  "cache_live now m key =
     (case map_of (performanceCache m) key of
        Some cached \<Rightarrow> now - timestamp cached < 5000
      | None \<Rightarrow> False)"

definition entries_sound ::
    "(string \<times> cache_entry) list \<Rightarrow> string \<Rightarrow> string list \<Rightarrow> bool" where
  "entries_sound c request aliases =
     list_all
       (\<lambda>alias. case map_of c (match_key request alias) of
                   Some cached \<Rightarrow>
                     is_null (cvalue cached) \<or> truthy (cvalue cached) = path_matches request alias
                 | None \<Rightarrow> True)
       aliases"

definition match_cache_sound :: "manager \<Rightarrow> string \<Rightarrow> bool" where
  "match_cache_sound m request = entries_sound (performanceCache m) request (moduleAliasNames m)"

definition longest_match :: "manager \<Rightarrow> string \<Rightarrow> string \<Rightarrow> bool" where
  "longest_match m request alias =
     (path_matches request alias \<and>
      list_all (\<lambda>a. if path_matches request a then length a \<le> length alias else True)
        (moduleAliasNames m))"

definition put_all :: "manager \<Rightarrow> (string \<times> jsval \<times> int) list \<Rightarrow> manager" where
  "put_all m entries = fold (\<lambda>(key, v, now) s. setCachedResolution now s key v) entries m"

text \<open>\<open>sample_entries n\<close>: \<open>n\<close> entries under \<open>n\<close> different keys, used as a concrete input.\<close>

definition sample_entries :: "nat \<Rightarrow> (string \<times> jsval \<times> int) list" where
  "sample_entries n = map (\<lambda>i. (replicate i CHR ''k'', JBool True, int i)) [0..<n]"


definition two_aliases :: manager where
  "two_aliases =
     snd (addAliases new_manager (JObj [(''@a'', JStr ''/x''), (''@a/b'', JStr ''/y'')]))"

definition three_aliases :: manager where
  "three_aliases =
     snd (addAliases new_manager
            (JObj [(''@a'', JStr ''/x''), (''@a/b'', JStr ''/y''), (''@a/b/c'', JStr ''/q'')]))"




section \<open>The states the interface can reach\<close>

text \<open>
  \<open>reachable\<close>: the states of a manager that starts as the constructor leaves it and is
  driven through its methods. \<open>cache_ok\<close> and \<open>table_ok\<close> are the two conditions the
  statements below assume of a state; every reachable state meets them.
\<close>

definition cache_ok :: "manager \<Rightarrow> bool" where
  "cache_ok m =
     (length (performanceCache m) \<le> 1000 \<and> distinct (map fst (performanceCache m)))"

definition table_ok :: "manager \<Rightarrow> bool" where
  "table_ok m = (moduleAliasNames m = object_keys (moduleAliases m))"

inductive reachable :: "manager \<Rightarrow> bool" where
  constructed: "reachable new_manager"
| resolved: "reachable m \<Longrightarrow> reachable (snd (resolveAlias cwd now m request parent))"
| matched: "reachable m \<Longrightarrow> reachable (snd (isPathMatchesAlias now m path alias))"
| cached: "reachable m \<Longrightarrow> reachable (setCachedResolution now m key v)"
| added: "reachable m \<Longrightarrow> reachable (snd (addAlias m alias target))"
| added_many: "reachable m \<Longrightarrow> reachable (snd (addAliases m aliases))"
| reloaded: "reachable m \<Longrightarrow> reachable (reloadAliases m required base)"
| path_added: "reachable m \<Longrightarrow> reachable (snd (addPath m path))"
| was_reset: "reachable m \<Longrightarrow> reachable (reset m)"

section \<open>Evaluation rules\<close>

lemmas path_defs = posix_join_def posix_normalize_def
lemmas cache_defs = getCachedResolution_def setCachedResolution_def evict_oldest_def
lemmas match_defs = isPathMatchesAlias_def match_key_def path_matches_def indexOf_def char_at_def
lemmas resolve_defs = resolveAlias_def resolve_key_def context_name_def from_path_def
  sortedAliases_def apply_target_def obj_get_def
lemmas add_defs = addAlias_def obj_set_def object_keys_def array_index_def is_digit_def

section \<open>The matcher computes the specified predicate\<close>

lemma indexOf_from_lower: "indexOf_from s search i = - 1 \<or> int i \<le> indexOf_from s search i"
  by (induction s arbitrary: i) (auto, force)

lemma indexOf_from_prefix: "indexOf_from s search i = int i \<longleftrightarrow> prefix search s"
proof (cases s)
  case Nil
  then show ?thesis by auto
next
  case (Cons c cs)
  show ?thesis
  proof (cases "prefix search s")
    case True
    then show ?thesis using Cons by simp
  next
    case False
    have "indexOf_from cs search (i + 1) = - 1 \<or> int (i + 1) \<le> indexOf_from cs search (i + 1)"
      by (rule indexOf_from_lower)
    then have "indexOf_from cs search (i + 1) \<noteq> int i" by auto
    then show ?thesis using False Cons by simp
  qed
qed

lemma indexOf_zero: "indexOf s search = 0 \<longleftrightarrow> prefix search s"
  using indexOf_from_prefix [of s search 0] by (simp add: indexOf_def)

lemma prefix_same_length: "prefix a p \<Longrightarrow> length p = length a \<Longrightarrow> p = a"
  by (auto simp: prefix_def)

lemma path_matches_spec: "path_matches path alias = spec_matches path alias"
  unfolding path_matches_def spec_matches_def indexOf_zero
  by (auto simp: char_at_def dest: prefix_same_length)

lemma path_matches_prefix: "path_matches path alias \<Longrightarrow> prefix alias path"
  by (simp add: path_matches_spec spec_matches_def)

text \<open>
  C2. The matcher is specified as a function of its two strings: true exactly when the path
  starts with the alias and either equals it or continues with a separator. The computation
  \<open>path_matches\<close> is that predicate (\<open>path_matches_spec\<close>), but \<open>isPathMatchesAlias\<close> first
  looks the pair up in the shared store under the key \<open>path:alias\<close>, and two different
  pairs can spell the same key. On a new manager, asking for \<open>a/:a\<close> against \<open>a\<close> stores
  \<open>true\<close> under \<open>a/:a:a\<close>; asking one millisecond later for \<open>a/\<close> against \<open>a:a\<close> reads
  that entry and answers \<open>true\<close>, although \<open>a/\<close> does not start with \<open>a:a\<close>.
\<close>

theorem matcher_cache_collision:
  "fst (isPathMatchesAlias 1 (snd (isPathMatchesAlias 0 new_manager ''a/:a'' ''a'')) ''a/'' ''a:a'')
     = JBool True
   \<and> spec_matches ''a/'' ''a:a'' = False \<and> path_matches ''a/'' ''a:a'' = False"
  by (simp add: new_manager_def match_defs cache_defs spec_matches_def)

section \<open>The cache store\<close>

lemma map_of_evict_oldest: "map_of (evict_oldest c) k = Some e \<Longrightarrow> map_of c k = Some e"
  by (auto simp: evict_oldest_def AList.delete_conv' split: list.splits if_splits)

lemma length_evict_oldest: "length c \<le> 1001 \<Longrightarrow> length (evict_oldest c) \<le> 1000"
  by (cases c) (auto simp: evict_oldest_def intro: le_trans [OF AList.length_delete_le])

lemma length_update_le: "length (AList.update k v c) \<le> Suc (length c)"
  by (induction c) auto

lemma setCached_length:
  "length (performanceCache m) \<le> 1000 \<Longrightarrow>
   length (performanceCache (setCachedResolution now m key v)) \<le> 1000"
  unfolding setCachedResolution_def using length_update_le [of key _ "performanceCache m"]
  by (auto intro!: length_evict_oldest le_trans [OF length_update_le])

lemma update_absent: "k \<notin> set (map fst c) \<Longrightarrow> AList.update k v c = c @ [(k, v)]"
  by (induction c) auto

lemma update_present_length: "k \<in> set (map fst c) \<Longrightarrow> length (AList.update k v c) = length c"
  by (induction c) auto

lemma delete_first:
  "distinct (map fst c) \<Longrightarrow> c = (k, e) # rest \<Longrightarrow> AList.delete k c = rest"
  by auto

lemma evict_oldest_small: "length c \<le> 1000 \<Longrightarrow> evict_oldest c = c"
  by (simp add: evict_oldest_def)

lemma evict_oldest_full:
  "distinct (map fst c) \<Longrightarrow> length c > 1000 \<Longrightarrow> evict_oldest c = tl c"
  by (cases c) (auto simp: evict_oldest_def)

lemma setCached_present:
  assumes "length (performanceCache m) \<le> 1000" and "key \<in> set (map fst (performanceCache m))"
  shows "performanceCache (setCachedResolution now m key v)
           = AList.update key \<lparr>cvalue = v, timestamp = now\<rparr> (performanceCache m)"
  using assms by (simp add: setCachedResolution_def evict_oldest_small update_present_length)

lemma setCached_absent_room:
  assumes "length (performanceCache m) < 1000" and "key \<notin> set (map fst (performanceCache m))"
  shows "performanceCache (setCachedResolution now m key v)
           = performanceCache m @ [(key, \<lparr>cvalue = v, timestamp = now\<rparr>)]"
  using assms by (simp add: setCachedResolution_def evict_oldest_small update_absent)

lemma setCached_absent_full:
  assumes "length (performanceCache m) = 1000" and "key \<notin> set (map fst (performanceCache m))"
    and "distinct (map fst (performanceCache m))"
  shows "performanceCache (setCachedResolution now m key v)
           = tl (performanceCache m) @ [(key, \<lparr>cvalue = v, timestamp = now\<rparr>)]"
proof -
  let ?c = "performanceCache m"
  let ?e = "\<lparr>cvalue = v, timestamp = now\<rparr>"
  have "distinct (map fst (?c @ [(key, ?e)]))" using assms by simp
  moreover have "length (?c @ [(key, ?e)]) > 1000" using assms by simp
  ultimately have "evict_oldest (?c @ [(key, ?e)]) = tl (?c @ [(key, ?e)])"
    by (rule evict_oldest_full)
  moreover have "?c \<noteq> []" using assms by auto
  ultimately show ?thesis using assms by (simp add: setCachedResolution_def update_absent)
qed

lemma setCached_distinct:
  "distinct (map fst (performanceCache m)) \<Longrightarrow>
   distinct (map fst (performanceCache (setCachedResolution now m key v)))"
proof -
  assume d: "distinct (map fst (performanceCache m))"
  let ?u = "AList.update key \<lparr>cvalue = v, timestamp = now\<rparr> (performanceCache m)"
  have du: "distinct (map fst ?u)" using d by (rule AList.distinct_update)
  have "distinct (map fst (evict_oldest ?u))"
  proof (cases "length ?u \<le> 1000")
    case True
    then show ?thesis using du by (simp add: evict_oldest_small)
  next
    case False
    then have "evict_oldest ?u = tl ?u" using du by (simp add: evict_oldest_full)
    then show ?thesis using du by (simp add: map_tl distinct_tl)
  qed
  then show ?thesis by (simp add: setCachedResolution_def)
qed

lemma put_all_keys:
  assumes "distinct (map fst (performanceCache m) @ map fst entries)"
    and "length (performanceCache m) \<le> 1000"
  shows "map fst (performanceCache (put_all m entries))
           = drop (length (performanceCache m) + length entries - 1000)
               (map fst (performanceCache m) @ map fst entries)"
  using assms
proof (induction entries arbitrary: m)
  case Nil
  then show ?case by (simp add: put_all_def)
next
  case (Cons x es)
  obtain k v t where x: "x = (k, v, t)" by (cases x) auto
  let ?c = "performanceCache m"
  let ?m1 = "setCachedResolution t m k v"
  let ?c1 = "performanceCache ?m1"
  have absent: "k \<notin> set (map fst ?c)" and dc: "distinct (map fst ?c)"
    using Cons.prems(1) x by auto
  have step: "put_all m ((k, v, t) # es) = put_all ?m1 es" by (simp add: put_all_def)
  have len1: "length ?c1 \<le> 1000" using Cons.prems(2) by (rule setCached_length)
  show ?case
  proof (cases "length ?c < 1000")
    case True
    have c1: "?c1 = ?c @ [(k, \<lparr>cvalue = v, timestamp = t\<rparr>)]"
      using True absent by (rule setCached_absent_room)
    have "distinct (map fst ?c1 @ map fst es)" using Cons.prems(1) x c1 by simp
    from Cons.IH [OF this len1] show ?thesis using True by (simp add: step c1 x)
  next
    case False
    then have full: "length ?c = 1000" using Cons.prems(2) by simp
    have c1: "?c1 = tl ?c @ [(k, \<lparr>cvalue = v, timestamp = t\<rparr>)]"
      using full absent dc by (rule setCached_absent_full)
    have ne: "?c \<noteq> []" using full by auto
    then have keys: "map fst ?c = hd (map fst ?c) # map fst (tl ?c)"
      by (cases ?c) auto
    have "distinct (map fst (tl ?c) @ k # map fst es)"
      using Cons.prems(1) x ne by (cases ?c) auto
    then have "distinct (map fst ?c1 @ map fst es)" by (simp add: c1)
    from Cons.IH [OF this len1]
    have ih: "map fst (performanceCache (put_all ?m1 es))
            = drop (length es) (map fst (tl ?c) @ k # map fst es)"
      using full ne by (simp add: c1)
    have rhs: "drop (length ?c + length (x # es) - 1000) (map fst ?c @ map fst (x # es))
            = drop (length es) (map fst (tl ?c) @ k # map fst es)"
      using full ne by (cases ?c) (auto simp: x)
    have "map fst (performanceCache (put_all m (x # es)))
            = map fst (performanceCache (put_all ?m1 es))"
      using step by (simp only: x)
    also note ih
    also note rhs [symmetric]
    finally show ?thesis .
  qed
qed

lemma put_all_new_manager:
  assumes "distinct (map fst entries)"
  shows "map fst (performanceCache (put_all new_manager entries))
           = drop (length entries - 1000) (map fst entries)"
  using put_all_keys [of new_manager entries] assms by (simp add: new_manager_def)

text \<open>
  C7. On a store within its capacity (1000 entries, different keys: what every \<open>Map\<close>
  reached from the constructor is), a put leaves the store within capacity. A put under a
  present key replaces the value where it stands and evicts nothing; a put under a new key
  appends, and when that makes 1001 entries, exactly the first entry in insertion order
  goes. Putting 1001 different keys into the empty store leaves the 1000 last ones, in
  order: the first key is gone.
\<close>

theorem cache_bounded_fifo:
  assumes ok: "cache_ok m"
  shows "length (performanceCache (setCachedResolution now m key v)) \<le> 1000
    \<and> distinct (map fst (performanceCache (setCachedResolution now m key v)))
    \<and> (key \<in> set (map fst (performanceCache m)) \<longrightarrow>
          performanceCache (setCachedResolution now m key v)
            = AList.update key \<lparr>cvalue = v, timestamp = now\<rparr> (performanceCache m))
    \<and> (key \<notin> set (map fst (performanceCache m)) \<and> length (performanceCache m) < 1000 \<longrightarrow>
          performanceCache (setCachedResolution now m key v)
            = performanceCache m @ [(key, \<lparr>cvalue = v, timestamp = now\<rparr>)])
    \<and> (key \<notin> set (map fst (performanceCache m)) \<and> length (performanceCache m) = 1000 \<longrightarrow>
          performanceCache (setCachedResolution now m key v)
            = tl (performanceCache m) @ [(key, \<lparr>cvalue = v, timestamp = now\<rparr>)])
    \<and> (\<forall>entries. distinct (map fst entries) \<and> length entries = 1001 \<longrightarrow>
          map fst (performanceCache (put_all new_manager entries)) = tl (map fst entries))"
proof -
  have len: "length (performanceCache m) \<le> 1000"
    and dist: "distinct (map fst (performanceCache m))"
    using ok by (simp_all add: cache_ok_def)
  show ?thesis
  proof (intro conjI impI allI)
    show "length (performanceCache (setCachedResolution now m key v)) \<le> 1000"
      using len by (rule setCached_length)
    show "distinct (map fst (performanceCache (setCachedResolution now m key v)))"
      using dist by (rule setCached_distinct)
  next
    assume "key \<in> set (map fst (performanceCache m))"
    with len show "performanceCache (setCachedResolution now m key v)
              = AList.update key \<lparr>cvalue = v, timestamp = now\<rparr> (performanceCache m)"
      by (rule setCached_present)
  next
    assume "key \<notin> set (map fst (performanceCache m)) \<and> length (performanceCache m) < 1000"
    then show "performanceCache (setCachedResolution now m key v)
              = performanceCache m @ [(key, \<lparr>cvalue = v, timestamp = now\<rparr>)]"
      by (simp add: setCached_absent_room)
  next
    assume "key \<notin> set (map fst (performanceCache m)) \<and> length (performanceCache m) = 1000"
    then show "performanceCache (setCachedResolution now m key v)
              = tl (performanceCache m) @ [(key, \<lparr>cvalue = v, timestamp = now\<rparr>)]"
      using dist by (simp add: setCached_absent_full)
  next
    fix entries :: "(string \<times> jsval \<times> int) list"
    assume "distinct (map fst entries) \<and> length entries = 1001"
    then show "map fst (performanceCache (put_all new_manager entries)) = tl (map fst entries)"
      by (simp add: put_all_new_manager drop_Suc)
  qed
qed

lemma sample_entries_keys: "map fst (sample_entries n) = map (\<lambda>i. replicate i CHR ''k'') [0..<n]"
  by (simp add: sample_entries_def comp_def)

lemma sample_entries_distinct: "distinct (map fst (sample_entries n))"
  by (simp add: sample_entries_keys distinct_map inj_on_def)

lemma sample_entries_length: "length (sample_entries n) = n"
  by (simp add: sample_entries_def)

lemma sample_cache_keys:
  "n \<le> 1000 \<Longrightarrow> map fst (performanceCache (put_all new_manager (sample_entries n)))
     = map fst (sample_entries n)"
  by (simp add: put_all_new_manager sample_entries_distinct sample_entries_length)

theorem cache_bounded_fifo_witness:
  "length (performanceCache (put_all new_manager (sample_entries 1000))) = 1000
   \<and> performanceCache (setCachedResolution 7 (put_all new_manager (sample_entries 1000)) ''new'' (JBool True))
       = tl (performanceCache (put_all new_manager (sample_entries 1000)))
           @ [(''new'', \<lparr>cvalue = JBool True, timestamp = 7\<rparr>)]
   \<and> performanceCache (setCachedResolution 7 (put_all new_manager (sample_entries 1000)) ''kk'' (JBool False))
       = AList.update ''kk'' \<lparr>cvalue = JBool False, timestamp = 7\<rparr>
           (performanceCache (put_all new_manager (sample_entries 1000)))
   \<and> performanceCache (setCachedResolution 7 new_manager ''new'' (JBool True))
       = [(''new'', \<lparr>cvalue = JBool True, timestamp = 7\<rparr>)]
   \<and> length (performanceCache (put_all new_manager (sample_entries 1001))) = 1000
   \<and> map fst (performanceCache (put_all new_manager (sample_entries 1001)))
       = tl (map fst (sample_entries 1001))
   \<and> [] \<notin> set (map fst (performanceCache (put_all new_manager (sample_entries 1001))))"
proof -
  let ?m = "put_all new_manager (sample_entries 1000)"
  have keys: "map fst (performanceCache ?m) = map fst (sample_entries 1000)"
    by (simp add: sample_cache_keys)
  have len: "length (performanceCache ?m) = 1000"
    using arg_cong [OF keys, of length] by (simp add: sample_entries_length)
  have dist: "distinct (map fst (performanceCache ?m))"
    by (simp add: keys sample_entries_distinct)
  have new: "''new'' \<notin> set (map fst (performanceCache ?m))"
    by (auto simp: keys sample_entries_keys Cons_replicate_eq)
  have old: "''kk'' \<in> set (map fst (performanceCache ?m))"
  proof -
    have "''kk'' = replicate 2 CHR ''k''" by (simp add: numeral_2_eq_2)
    then show ?thesis unfolding keys sample_entries_keys by (simp del: replicate_Suc replicate.simps) 
  qed
  have ok: "cache_ok ?m" using len dist by (simp add: cache_ok_def)
  have ok0: "cache_ok new_manager" by (simp add: cache_ok_def new_manager_def)
  have e: "distinct (map fst (sample_entries 1001)) \<and> length (sample_entries 1001) = 1001"
    by (simp add: sample_entries_distinct sample_entries_length)
  note full = cache_bounded_fifo [of ?m 7 "''new''" "JBool True"]
  note over = cache_bounded_fifo [of ?m 7 "''kk''" "JBool False"]
  note empty = cache_bounded_fifo [of new_manager 7 "''new''" "JBool True"]
  have a: "performanceCache (setCachedResolution 7 ?m ''new'' (JBool True))
       = tl (performanceCache ?m) @ [(''new'', \<lparr>cvalue = JBool True, timestamp = 7\<rparr>)]"
    using full [OF ok] len new by simp
  have b: "performanceCache (setCachedResolution 7 ?m ''kk'' (JBool False))
       = AList.update ''kk'' \<lparr>cvalue = JBool False, timestamp = 7\<rparr> (performanceCache ?m)"
    using over [OF ok] old by simp
  have c: "performanceCache (setCachedResolution 7 new_manager ''new'' (JBool True))
       = [(''new'', \<lparr>cvalue = JBool True, timestamp = 7\<rparr>)]"
    using empty [OF ok0] by (simp add: new_manager_def)
  have d: "map fst (performanceCache (put_all new_manager (sample_entries 1001)))
       = tl (map fst (sample_entries 1001))"
    using full [OF ok] e by blast
  have f: "length (performanceCache (put_all new_manager (sample_entries 1001))) = 1000"
    using arg_cong [OF d, of length] by (simp add: sample_entries_length)
  have g: "[] \<notin> set (map fst (performanceCache (put_all new_manager (sample_entries 1001))))"
    unfolding d sample_entries_keys by (auto simp: map_tl [symmetric] upt_rec [of 0] simp del: upt.simps)
  show ?thesis using len a b c d f g by simp
qed

section \<open>The resolver follows the first covering alias in descending length\<close>

lemma getCached_frame:
  "moduleAliases (snd (getCachedResolution now m key)) = moduleAliases m"
  "moduleAliasNames (snd (getCachedResolution now m key)) = moduleAliasNames m"
  "performanceCache (snd (getCachedResolution now m key)) = performanceCache m"
  "errorLog (snd (getCachedResolution now m key)) = errorLog m"
  "modulePaths (snd (getCachedResolution now m key)) = modulePaths m"
  by (simp_all add: getCachedResolution_def split: option.splits)

lemma getCached_value:
  "fst (getCachedResolution now m key) =
     (case map_of (performanceCache m) key of
        Some cached \<Rightarrow> if now - timestamp cached < 5000 then cvalue cached else JNull
      | None \<Rightarrow> JNull)"
  by (simp add: getCachedResolution_def split: option.splits)

lemma getCached_miss:
  "\<not> cache_live now m key \<Longrightarrow> getCachedResolution now m key = (JNull, m)"
  by (simp add: getCachedResolution_def cache_live_def split: option.splits)

lemma setCached_frame:
  "moduleAliases (setCachedResolution now m key v) = moduleAliases m"
  "moduleAliasNames (setCachedResolution now m key v) = moduleAliasNames m"
  "errorLog (setCachedResolution now m key v) = errorLog m"
  "stats (setCachedResolution now m key v) = stats m"
  "modulePaths (setCachedResolution now m key v) = modulePaths m"
  by (simp_all add: setCachedResolution_def)

lemma setCached_entries:
  assumes "map_of (performanceCache (setCachedResolution now m key v)) k = Some e"
  shows "map_of (performanceCache m) k = Some e \<or> (k = key \<and> e = \<lparr>cvalue = v, timestamp = now\<rparr>)"
proof -
  from assms have "map_of (evict_oldest (AList.update key \<lparr>cvalue = v, timestamp = now\<rparr>
      (performanceCache m))) k = Some e"
    by (simp add: setCachedResolution_def)
  then have "map_of (AList.update key \<lparr>cvalue = v, timestamp = now\<rparr> (performanceCache m)) k = Some e"
    by (rule map_of_evict_oldest)
  then show ?thesis by (auto simp: AList.update_conv' split: if_splits)
qed

lemma isPathMatchesAlias_frame:
  "moduleAliases (snd (isPathMatchesAlias now m path alias)) = moduleAliases m"
  "moduleAliasNames (snd (isPathMatchesAlias now m path alias)) = moduleAliasNames m"
  "errorLog (snd (isPathMatchesAlias now m path alias)) = errorLog m"
  "modulePaths (snd (isPathMatchesAlias now m path alias)) = modulePaths m"
  by (simp_all add: isPathMatchesAlias_def Let_def split_beta getCached_frame setCached_frame)

lemma isPathMatchesAlias_entries:
  assumes "map_of (performanceCache (snd (isPathMatchesAlias now m path alias))) k = Some e"
  shows "map_of (performanceCache m) k = Some e
         \<or> (k = match_key path alias \<and> cvalue e = JBool (path_matches path alias))"
proof (cases "is_null (fst (getCachedResolution now m (match_key path alias)))")
  case False
  then show ?thesis using assms
    by (simp add: isPathMatchesAlias_def Let_def split_beta getCached_frame)
next
  case True
  with assms have "map_of (performanceCache (setCachedResolution now
        (snd (getCachedResolution now m (match_key path alias))) (match_key path alias)
        (JBool (path_matches path alias)))) k = Some e"
    by (simp add: isPathMatchesAlias_def Let_def split_beta)
  from setCached_entries [OF this] show ?thesis by (auto simp: getCached_frame)
qed


lemma isPathMatchesAlias_value:
  "fst (isPathMatchesAlias now m path alias) =
     (if \<not> is_null (fst (getCachedResolution now m (match_key path alias)))
      then fst (getCachedResolution now m (match_key path alias))
      else JBool (path_matches path alias))"
  by (simp add: isPathMatchesAlias_def Let_def split_beta)

lemma isPathMatchesAlias_sound:
  assumes "entries_sound (performanceCache m) path [alias]"
  shows "truthy (fst (isPathMatchesAlias now m path alias)) = path_matches path alias"
proof -
  let ?v = "fst (getCachedResolution now m (match_key path alias))"
  have "is_null ?v \<or> truthy ?v = path_matches path alias"
  proof (cases "map_of (performanceCache m) (match_key path alias)")
    case None
    then show ?thesis by (simp add: getCached_value)
  next
    case (Some e)
    with assms have "is_null (cvalue e) \<or> truthy (cvalue e) = path_matches path alias"
      by (simp add: entries_sound_def)
    then show ?thesis using Some by (simp add: getCached_value)
  qed
  then show ?thesis unfolding isPathMatchesAlias_value by auto
qed

lemma entries_sound_Cons:
  "entries_sound c request (a # as) \<longleftrightarrow> entries_sound c request [a] \<and> entries_sound c request as"
  by (simp add: entries_sound_def)

lemma entries_sound_step:
  assumes "entries_sound (performanceCache m) request as"
  shows "entries_sound (performanceCache (snd (isPathMatchesAlias now m request alias))) request as"
  unfolding entries_sound_def list_all_iff
proof
  fix a assume a: "a \<in> set as"
  let ?c' = "performanceCache (snd (isPathMatchesAlias now m request alias))"
  show "case map_of ?c' (match_key request a) of
          None \<Rightarrow> True
        | Some cached \<Rightarrow> is_null (cvalue cached) \<or> truthy (cvalue cached) = path_matches request a"
  proof (cases "map_of ?c' (match_key request a)")
    case None
    then show ?thesis by simp
  next
    case (Some e)
    from isPathMatchesAlias_entries [OF Some]
    show ?thesis
    proof
      assume "map_of (performanceCache m) (match_key request a) = Some e"
      then show ?thesis using assms a Some by (auto simp: entries_sound_def list_all_iff)
    next
      assume "match_key request a = match_key request alias
              \<and> cvalue e = JBool (path_matches request alias)"
      then show ?thesis using Some by (simp add: match_key_def)
    qed
  qed
qed

lemma apply_target_frame:
  "moduleAliases (snd (apply_target cwd m request parent alias)) = moduleAliases m"
  "moduleAliasNames (snd (apply_target cwd m request parent alias)) = moduleAliasNames m"
  "performanceCache (snd (apply_target cwd m request parent alias)) = performanceCache m"
  "stats (snd (apply_target cwd m request parent alias)) = stats m"
  by (simp_all add: apply_target_def Let_def resolver_failed_def log_error_def
      split: jsval.splits sum.splits)

lemma apply_target_fst_cong:
  "moduleAliases m' = moduleAliases m \<Longrightarrow>
   fst (apply_target cwd m' request parent alias) = fst (apply_target cwd m request parent alias)"
  by (simp add: apply_target_def Let_def split: jsval.splits sum.splits)

lemma apply_target_log_cong:
  "moduleAliases m' = moduleAliases m \<Longrightarrow> errorLog m' = errorLog m \<Longrightarrow>
   errorLog (snd (apply_target cwd m' request parent alias))
     = errorLog (snd (apply_target cwd m request parent alias))"
  by (simp add: apply_target_def Let_def resolver_failed_def log_error_def
      split: jsval.splits sum.splits)



lemma resolve_loop_find:
  assumes "entries_sound (performanceCache m) request as"
  shows "\<exists>m'. moduleAliases m' = moduleAliases m \<and> moduleAliasNames m' = moduleAliasNames m
           \<and> errorLog m' = errorLog m
           \<and> resolve_loop cwd now m request parent as =
               (case find (path_matches request) as of
                  None \<Rightarrow> (Inr (JStr request), m')
                | Some a \<Rightarrow> apply_target cwd m' request parent a)"
  using assms
proof (induction as arbitrary: m)
  case Nil
  then show ?case by simp
next
  case (Cons a as)
  obtain v m1 where step: "isPathMatchesAlias now m request a = (v, m1)"
    by (cases "isPathMatchesAlias now m request a")
  from Cons.prems have sa: "entries_sound (performanceCache m) request [a]"
    and sas: "entries_sound (performanceCache m) request as"
    using entries_sound_Cons by blast+
  have v: "truthy v = path_matches request a"
    using isPathMatchesAlias_sound [OF sa, of now] step by simp
  have frame: "moduleAliases m1 = moduleAliases m" "moduleAliasNames m1 = moduleAliasNames m"
      "errorLog m1 = errorLog m"
    using isPathMatchesAlias_frame [of now m request a] step by simp_all
  show ?case
  proof (cases "path_matches request a")
    case True
    let ?m' = "m1\<lparr>stats := (stats m1)\<lparr>aliasMatches := aliasMatches (stats m1) + 1\<rparr>\<rparr>"
    have "resolve_loop cwd now m request parent (a # as) = apply_target cwd ?m' request parent a"
      using True v step by simp
    then show ?thesis using True frame by (intro exI [of _ ?m']) simp
  next
    case False
    have "entries_sound (performanceCache m1) request as"
      using entries_sound_step [OF sas, of now a] step by simp
    from Cons.IH [OF this] obtain m' where
      m': "moduleAliases m' = moduleAliases m1" "moduleAliasNames m' = moduleAliasNames m1"
        "errorLog m' = errorLog m1"
        "resolve_loop cwd now m1 request parent as =
               (case find (path_matches request) as of
                  None \<Rightarrow> (Inr (JStr request), m')
                | Some a \<Rightarrow> apply_target cwd m' request parent a)"
      by blast
    have "resolve_loop cwd now m request parent (a # as) = resolve_loop cwd now m1 request parent as"
      using False v step by simp
    then show ?thesis using False frame m' by (intro exI [of _ m']) simp
  qed
qed



lemma prefix_equal_length:
  "prefix a r \<Longrightarrow> prefix b r \<Longrightarrow> length a = length b \<Longrightarrow> a = b"
  by (auto simp: prefix_def)

lemma find_longest:
  assumes "alias \<in> set names" and "path_matches request alias"
    and "\<forall>a\<in>set names. path_matches request a \<longrightarrow> length a \<le> length alias"
  shows "find (path_matches request) (sort_key (\<lambda>a. - int (length a)) names) = Some alias"
proof -
  let ?f = "\<lambda>a::string. - int (length a)"
  let ?xs = "sort_key ?f names"
  let ?P = "path_matches request"
  have "alias \<in> set ?xs" using assms(1) by simp
  then obtain k where k: "k < length ?xs" "?xs ! k = alias" by (metis in_set_conv_nth)
  have "find ?P ?xs \<noteq> None" using \<open>alias \<in> set ?xs\<close> assms(2) by (auto simp: find_None_iff)
  then obtain b where b: "find ?P ?xs = Some b" by auto
  then obtain i where i: "i < length ?xs" "?P (?xs ! i)" "b = ?xs ! i" "\<forall>j<i. \<not> ?P (?xs ! j)"
    by (auto simp: find_Some_iff)
  have "i \<le> k" using i(4) k assms(2) by (metis not_le_imp_less)
  have "sorted (map ?f ?xs)" by (rule sorted_sort_key)
  then have "?f (?xs ! i) \<le> ?f (?xs ! k)"
    using \<open>i \<le> k\<close> k(1) by (auto simp: sorted_iff_nth_mono dest!: spec [of _ i] spec [of _ k])
  then have "length alias \<le> length b" using i(3) k(2) by simp
  moreover have "b \<in> set names" using i(1,3) by (metis nth_mem set_sort)
  then have "length b \<le> length alias" using assms(3) i(2,3) by auto
  ultimately have "length b = length alias" by simp
  moreover have "prefix b request" "prefix alias request"
    using i(2,3) assms(2) by (auto dest: path_matches_prefix)
  ultimately have "b = alias" by (rule prefix_equal_length [rotated 2])
  then show ?thesis using b by simp
qed

lemma find_none:
  "\<forall>a\<in>set names. \<not> path_matches request a \<Longrightarrow>
   find (path_matches request) (sort_key f names) = None"
  by (simp add: find_None_iff)

lemma resolveAlias_miss:
  assumes "\<not> cache_live now m (resolve_key request parent)"
  shows "resolveAlias cwd now m request parent =
     (let m0 = m\<lparr>stats := (stats m)\<lparr>resolutions := resolutions (stats m) + 1\<rparr>\<rparr>
      in case resolve_loop cwd now m0 request parent (sortedAliases m0) of
           (Inl err, m2) \<Rightarrow> (Inl err, m2)
         | (Inr resolvedRequest, m2) \<Rightarrow>
             (Inr resolvedRequest,
              setCachedResolution now m2 (resolve_key request parent) resolvedRequest))"
proof -
  let ?m0 = "m\<lparr>stats := (stats m)\<lparr>resolutions := resolutions (stats m) + 1\<rparr>\<rparr>"
  have "\<not> cache_live now ?m0 (resolve_key request parent)"
    using assms by (simp add: cache_live_def)
  then have "getCachedResolution now ?m0 (resolve_key request parent) = (JNull, ?m0)"
    by (rule getCached_miss)
  then show ?thesis by (simp add: resolveAlias_def Let_def)
qed

lemma sortedAliases_stats [simp]: "sortedAliases (m\<lparr>stats := s\<rparr>) = sortedAliases m"
  by (simp add: sortedAliases_def)

lemma resolveAlias_computed:
  assumes miss: "\<not> cache_live now m (resolve_key request parent)"
    and sound: "match_cache_sound m request"
  shows "fst (resolveAlias cwd now m request parent) =
           (case find (path_matches request) (sortedAliases m) of
              None \<Rightarrow> Inr (JStr request)
            | Some a \<Rightarrow> fst (apply_target cwd m request parent a))"
    and "errorLog (snd (resolveAlias cwd now m request parent)) =
           (case find (path_matches request) (sortedAliases m) of
              None \<Rightarrow> errorLog m
            | Some a \<Rightarrow> errorLog (snd (apply_target cwd m request parent a)))"
proof -
  let ?m0 = "m\<lparr>stats := (stats m)\<lparr>resolutions := resolutions (stats m) + 1\<rparr>\<rparr>"
  let ?key = "resolve_key request parent"
  have "entries_sound (performanceCache ?m0) request (sortedAliases ?m0)"
    using sound by (simp add: match_cache_sound_def entries_sound_def sortedAliases_def list_all_iff)
  from resolve_loop_find [OF this, of cwd now parent] obtain m' where
    m': "moduleAliases m' = moduleAliases m" "errorLog m' = errorLog m"
      "resolve_loop cwd now ?m0 request parent (sortedAliases m) =
         (case find (path_matches request) (sortedAliases m) of
            None \<Rightarrow> (Inr (JStr request), m')
          | Some a \<Rightarrow> apply_target cwd m' request parent a)"
    by auto
  let ?r = "resolve_loop cwd now ?m0 request parent (sortedAliases m)"
  have eq: "resolveAlias cwd now m request parent =
     (case ?r of (Inl err, m2) \<Rightarrow> (Inl err, m2)
        | (Inr resolvedRequest, m2) \<Rightarrow>
            (Inr resolvedRequest, setCachedResolution now m2 ?key resolvedRequest))"
    using resolveAlias_miss [OF miss, of cwd] by (simp add: Let_def)
  have fst_eq: "fst (resolveAlias cwd now m request parent) = fst ?r"
    unfolding eq by (simp add: split_beta split: sum.splits)
  have log_eq: "errorLog (snd (resolveAlias cwd now m request parent)) = errorLog (snd ?r)"
    unfolding eq by (simp add: split_beta setCached_frame split: sum.splits)
  show "fst (resolveAlias cwd now m request parent) =
           (case find (path_matches request) (sortedAliases m) of
              None \<Rightarrow> Inr (JStr request)
            | Some a \<Rightarrow> fst (apply_target cwd m request parent a))"
    unfolding fst_eq m'(3) using apply_target_fst_cong [OF m'(1)]
    by (simp split: option.splits)
  show "errorLog (snd (resolveAlias cwd now m request parent)) =
           (case find (path_matches request) (sortedAliases m) of
              None \<Rightarrow> errorLog m
            | Some a \<Rightarrow> errorLog (snd (apply_target cwd m request parent a)))"
    unfolding log_eq m'(3) using apply_target_log_cong [OF m'(1) m'(2)] m'(2)
    by (simp split: option.splits)
qed

lemma longest_match_find:
  assumes "alias \<in> set (moduleAliasNames m)" and "longest_match m request alias"
  shows "find (path_matches request) (sortedAliases m) = Some alias"
  unfolding sortedAliases_def
  using assms by (intro find_longest) (auto simp: longest_match_def list_all_iff split: if_splits)

lemma registered_alias:
  assumes "table_ok m"
    and "map_of (moduleAliases m) alias = Some target"
  shows "alias \<in> set (moduleAliasNames m)"
proof -
  have "(alias, target) \<in> set (moduleAliases m)" using assms(2) by (rule map_of_SomeD)
  then have "fst (alias, target) \<in> fst ` set (moduleAliases m)" by (rule imageI)
  then show ?thesis using assms(1) by (simp add: table_ok_def object_keys_def)
qed

lemma resolve_static:
  assumes wf: "table_ok m"
    and tgt: "map_of (moduleAliases m) alias = Some (JStr target)"
    and longest: "longest_match m request alias"
    and miss: "\<not> cache_live now m (resolve_key request parent)"
    and sound: "match_cache_sound m request"
  shows "fst (resolveAlias cwd now m request parent)
           = Inr (JStr (posix_join target (drop (length alias) request)))"
proof -
  have "find (path_matches request) (sortedAliases m) = Some alias"
    using registered_alias [OF wf tgt] longest by (rule longest_match_find)
  then show ?thesis
    using resolveAlias_computed(1) [OF miss sound, of cwd] tgt
    by (simp add: apply_target_def obj_get_def)
qed

lemma two_aliases_eq:
  "two_aliases = new_manager\<lparr>moduleAliases := [(''@a'', JStr ''/x''), (''@a/b'', JStr ''/y'')],
     moduleAliasNames := [''@a'', ''@a/b'']\<rparr>"
  by (simp add: two_aliases_def addAliases_def add_defs new_manager_def path_defs)

lemma three_aliases_eq:
  "three_aliases = new_manager\<lparr>moduleAliases :=
       [(''@a'', JStr ''/x''), (''@a/b'', JStr ''/y''), (''@a/b/c'', JStr ''/q'')],
     moduleAliasNames := [''@a'', ''@a/b'', ''@a/b/c'']\<rparr>"
  by (simp add: three_aliases_def addAliases_def add_defs new_manager_def path_defs)


text \<open>
  C1, as stated, fails. The resolver tries the registered aliases in descending length and
  follows the first one that covers the request, so a table that holds \<open>@a\<close> and \<open>@a/b\<close>
  and also the longer \<open>@a/b/c\<close> resolves \<open>@a/b/c\<close> through the third alias, not to
  \<open>/y/c\<close>. The cache is empty here.
\<close>

theorem longer_alias_wins_counterexample:
  "map_of (moduleAliases three_aliases) ''@a'' = Some (JStr ''/x'')
   \<and> map_of (moduleAliases three_aliases) ''@a/b'' = Some (JStr ''/y'')
   \<and> fst (resolveAlias ''/'' 0 three_aliases ''@a/b/c'' None) = Inr (JStr ''/q'')
   \<and> fst (resolveAlias ''/'' 0 three_aliases ''@a/b/c'' None) \<noteq> Inr (JStr ''/y/c'')"
  by (simp add: three_aliases_eq new_manager_def resolve_defs cache_defs match_defs path_defs
      Let_def)

text \<open>
  C1. On a manager whose alias names are the keys of its table: if an alias with a string
  target covers the request and no registered alias covering the request is longer, and the
  answer is computed (the store holds no live entry under the resolver's key for the
  request, and its entries under the matcher's keys for the request agree with the
  matcher), then the answer is the target joined with the rest of the request after the
  alias. With \<open>@a\<close> for \<open>/x\<close> and \<open>@a/b\<close> for \<open>/y\<close> this gives \<open>/y/c\<close> for \<open>@a/b/c\<close> and
  \<open>/x/z\<close> for \<open>@a/z\<close>. What a store holding other entries under these keys makes of the
  request is left open here.
\<close>

theorem resolve_longest_alias:
  assumes ok: "table_ok m"
  shows "(map_of (moduleAliases m) ''@a'' = Some (JStr ''/x'')
            \<and> map_of (moduleAliases m) ''@a/b'' = Some (JStr ''/y'')
            \<and> longest_match m ''@a/b/c'' ''@a/b''
            \<and> \<not> cache_live now m (resolve_key ''@a/b/c'' parent)
            \<and> match_cache_sound m ''@a/b/c''
          \<longrightarrow> fst (resolveAlias cwd now m ''@a/b/c'' parent) = Inr (JStr ''/y/c''))
       \<and> (map_of (moduleAliases m) ''@a'' = Some (JStr ''/x'')
            \<and> map_of (moduleAliases m) ''@a/b'' = Some (JStr ''/y'')
            \<and> longest_match m ''@a/z'' ''@a''
            \<and> \<not> cache_live now m (resolve_key ''@a/z'' parent)
            \<and> match_cache_sound m ''@a/z''
          \<longrightarrow> fst (resolveAlias cwd now m ''@a/z'' parent) = Inr (JStr ''/x/z''))
       \<and> (\<forall>request alias target.
            map_of (moduleAliases m) alias = Some (JStr target)
            \<and> longest_match m request alias
            \<and> \<not> cache_live now m (resolve_key request parent)
            \<and> match_cache_sound m request
          \<longrightarrow> fst (resolveAlias cwd now m request parent)
                = Inr (JStr (posix_join target (drop (length alias) request))))"
proof (intro conjI impI allI)
  assume "map_of (moduleAliases m) ''@a'' = Some (JStr ''/x'')
            \<and> map_of (moduleAliases m) ''@a/b'' = Some (JStr ''/y'')
            \<and> longest_match m ''@a/b/c'' ''@a/b''
            \<and> \<not> cache_live now m (resolve_key ''@a/b/c'' parent)
            \<and> match_cache_sound m ''@a/b/c''"
  then have "fst (resolveAlias cwd now m ''@a/b/c'' parent)
      = Inr (JStr (posix_join ''/y'' (drop (length ''@a/b'') ''@a/b/c'')))"
    using resolve_static [OF ok] by blast
  then show "fst (resolveAlias cwd now m ''@a/b/c'' parent) = Inr (JStr ''/y/c'')"
    by (simp add: path_defs)
next
  assume "map_of (moduleAliases m) ''@a'' = Some (JStr ''/x'')
            \<and> map_of (moduleAliases m) ''@a/b'' = Some (JStr ''/y'')
            \<and> longest_match m ''@a/z'' ''@a''
            \<and> \<not> cache_live now m (resolve_key ''@a/z'' parent)
            \<and> match_cache_sound m ''@a/z''"
  then have "fst (resolveAlias cwd now m ''@a/z'' parent)
      = Inr (JStr (posix_join ''/x'' (drop (length ''@a'') ''@a/z'')))"
    using resolve_static [OF ok] by blast
  then show "fst (resolveAlias cwd now m ''@a/z'' parent) = Inr (JStr ''/x/z'')"
    by (simp add: path_defs)
next
  fix request a' target
  assume "map_of (moduleAliases m) a' = Some (JStr target)
            \<and> longest_match m request a'
            \<and> \<not> cache_live now m (resolve_key request parent)
            \<and> match_cache_sound m request"
  then show "fst (resolveAlias cwd now m request parent)
                = Inr (JStr (posix_join target (drop (length a') request)))"
    using resolve_static [OF ok] by blast
qed

theorem resolve_longest_alias_witness:
  "fst (resolveAlias ''/'' 0 two_aliases ''@a/b/c'' None) = Inr (JStr ''/y/c'')
   \<and> fst (resolveAlias ''/'' 6000 (snd (resolveAlias ''/'' 0 two_aliases ''@a/z'' None)) ''@a/z'' None)
       = Inr (JStr ''/x/z'')
   \<and> fst (resolveAlias ''/'' 0
            (snd (addAlias new_manager (JStr ''@utils'') (JStr ''/project/src/utils'')))
            ''@utils/helper'' (Some ''/project/main.js''))
       = Inr (JStr ''/project/src/utils/helper'')"
proof -
  let ?warm = "snd (resolveAlias ''/'' 0 two_aliases ''@a/z'' None)"
  let ?u = "snd (addAlias new_manager (JStr ''@utils'') (JStr ''/project/src/utils''))"
  have warm: "?warm = two_aliases\<lparr>
      performanceCache :=
        [(''@a/z:@a/b'', \<lparr>cvalue = JBool False, timestamp = 0\<rparr>),
         (''@a/z:@a'', \<lparr>cvalue = JBool True, timestamp = 0\<rparr>),
         (''resolve:@a/z:unknown'', \<lparr>cvalue = JStr ''/x/z'', timestamp = 0\<rparr>)],
      stats := \<lparr>resolutions = 1, cacheHits = 0, aliasMatches = 1\<rparr>\<rparr>"
    by (simp add: two_aliases_eq new_manager_def resolve_defs cache_defs match_defs path_defs)
  have u: "?u = new_manager\<lparr>moduleAliases := [(''@utils'', JStr ''/project/src/utils'')],
      moduleAliasNames := [''@utils'']\<rparr>"
    by (simp add: add_defs new_manager_def path_defs)
  have 1: "fst (resolveAlias ''/'' 0 two_aliases ''@a/b/c'' None) = Inr (JStr ''/y/c'')"
    using resolve_longest_alias [of two_aliases 0 None "''/''"]
    by (simp add: two_aliases_eq new_manager_def table_ok_def object_keys_def longest_match_def cache_live_def
        match_cache_sound_def entries_sound_def match_defs resolve_key_def context_name_def)
  have 2: "fst (resolveAlias ''/'' 6000 ?warm ''@a/z'' None) = Inr (JStr ''/x/z'')"
    using resolve_longest_alias [of ?warm 6000 None "''/''"] unfolding warm
    by (simp add: two_aliases_eq new_manager_def table_ok_def object_keys_def longest_match_def cache_live_def
        match_cache_sound_def entries_sound_def match_defs resolve_key_def context_name_def)
  have wf: "table_ok ?u"
    by (simp add: u table_ok_def object_keys_def)
  have h1: "map_of (moduleAliases ?u) ''@utils'' = Some (JStr ''/project/src/utils'')"
    by (simp add: u)
  have h2: "longest_match ?u ''@utils/helper'' ''@utils''"
    by (simp add: u longest_match_def match_defs)
  have h3: "\<not> cache_live 0 ?u (resolve_key ''@utils/helper'' (Some ''/project/main.js''))"
    unfolding u by (simp add: cache_live_def new_manager_def)
  have h4: "match_cache_sound ?u ''@utils/helper''"
    unfolding u by (simp add: match_cache_sound_def entries_sound_def new_manager_def)
  have "fst (resolveAlias ''/'' 0 ?u ''@utils/helper'' (Some ''/project/main.js''))
       = Inr (JStr (posix_join ''/project/src/utils'' (drop (length ''@utils'') ''@utils/helper'')))"
    using resolve_longest_alias [OF wf, of 0 "Some ''/project/main.js''" "''/''"] h1 h2 h3 h4
    by blast
  then have 3: "fst (resolveAlias ''/'' 0 ?u ''@utils/helper'' (Some ''/project/main.js''))
       = Inr (JStr ''/project/src/utils/helper'')"
    by (simp add: path_defs)
  show ?thesis using 1 2 3 by simp
qed

text \<open>
  C8. A request covered by no alias is to come back unchanged. The store is shared with the
  matcher, whose key \<open>path:alias\<close> can spell a resolver key \<open>resolve:request:context\<close>.
  On a new manager with no alias at all, matching \<open>resolve:x\<close> against \<open>unknown\<close> stores
  \<open>false\<close> under \<open>resolve:x:unknown\<close>; resolving the request \<open>x\<close> with no parent module
  one millisecond later returns that \<open>false\<close> instead of \<open>x\<close>.
\<close>

theorem pass_through_cache_collision:
  "moduleAliasNames (snd (isPathMatchesAlias 0 new_manager ''resolve:x'' ''unknown'')) = []
   \<and> fst (resolveAlias ''/'' 1 (snd (isPathMatchesAlias 0 new_manager ''resolve:x'' ''unknown''))
            ''x'' None) = Inr (JBool False)"
  by (simp add: new_manager_def match_defs cache_defs resolve_defs)

section \<open>Resolver functions\<close>






section \<open>Adding several aliases\<close>

lemma addAlias_failure: "fst (addAlias m a t) = Some err \<Longrightarrow> addAlias m a t = (Some err, m)"
  by (auto simp: addAlias_def Let_def split: if_splits)




lemma addAlias_success_cache:
  "fst (addAlias m a t) = None \<Longrightarrow> performanceCache (snd (addAlias m a t)) = []"
  by (auto simp: addAlias_def Let_def split: if_splits)






section \<open>Reloading\<close>









section \<open>Cache hits and invalidation\<close>




lemma addAlias_invalidates:
  "performanceCache (snd (addAlias m a t)) = [] \<or> snd (addAlias m a t) = m"
  by (simp add: addAlias_def Let_def)

lemma addAliases_loop_invalidates:
  "performanceCache (snd (addAliases_loop m ps)) = [] \<or> snd (addAliases_loop m ps) = m"
proof (induction ps arbitrary: m)
  case Nil
  then show ?case by simp
next
  case (Cons x ps)
  obtain a t where x: "x = (a, t)" by (cases x)
  show ?case
  proof (cases "fst (addAlias m (JStr a) t)")
    case (Some err)
    then have "addAlias m (JStr a) t = (Some err, m)" by (rule addAlias_failure)
    then show ?thesis by (simp add: x)
  next
    case None
    then have empty: "performanceCache (snd (addAlias m (JStr a) t)) = []"
      by (rule addAlias_success_cache)
    have "addAliases_loop m (x # ps) = addAliases_loop (snd (addAlias m (JStr a) t)) ps"
      using None by (cases "addAlias m (JStr a) t") (simp add: x)
    then show ?thesis using Cons.IH [of "snd (addAlias m (JStr a) t)"] empty by auto
  qed
qed

lemma addAliases_invalidates:
  "performanceCache (snd (addAliases m aliases)) = [] \<or> snd (addAliases m aliases) = m"
  using addAliases_loop_invalidates [of m "enum_props aliases"] by (simp add: addAliases_def)

lemma reload_loop_cache:
  "performanceCache m = [] \<Longrightarrow> performanceCache (snd (reload_loop m base ps)) = []"
proof (induction ps arbitrary: m)
  case Nil
  then show ?case by simp
next
  case (Cons x ps)
  obtain a t where x: "x = (a, t)" by (cases x)
  show ?case
  proof (cases "reload_target base t")
    case (Inl err)
    then show ?thesis using Cons.prems by (simp add: x)
  next
    case (Inr t')
    have "performanceCache (snd (addAlias m (JStr a) t')) = []"
      using addAlias_invalidates [of m "JStr a" t'] Cons.prems by auto
    then show ?thesis
      using Inr Cons.IH [of "snd (addAlias m (JStr a) t')"]
      by (cases "addAlias m (JStr a) t'") (auto simp: x split: option.splits)
  qed
qed

lemma reload_invalidates:
  "performanceCache (reloadAliases m required base) = []
   \<or> (moduleAliases (reloadAliases m required base) = moduleAliases m
       \<and> performanceCache (reloadAliases m required base) = performanceCache m)"
proof (cases required)
  case (Inl err)
  then show ?thesis by (simp add: reloadAliases_def reload_failed_def log_error_def)
next
  case (Inr packageJson)
  let ?m1 = "m\<lparr>moduleAliases := [], moduleAliasNames := [], performanceCache := []\<rparr>"
  have finish: "performanceCache
      (case reload_loop ?m1 base ps of
         (Some err, m2) \<Rightarrow> reload_failed m2 err
       | (None, m2) \<Rightarrow> m2) = []" for ps
  proof -
    obtain r m2 where l: "reload_loop ?m1 base ps = (r, m2)"
      by (cases "reload_loop ?m1 base ps")
    have "performanceCache (snd (reload_loop ?m1 base ps)) = []"
      by (rule reload_loop_cache) simp
    then have "performanceCache m2 = []" by (simp add: l)
    then show ?thesis by (cases r) (simp_all add: l reload_failed_def log_error_def)
  qed
  have "performanceCache (reloadAliases m required base) = []"
  proof (cases "get_prop packageJson ''_moduleAliases''")
    case (Inl err)
    then show ?thesis by (simp add: Inr reloadAliases_def reload_failed_def log_error_def)
  next
    case found: (Inr found)
    show ?thesis using finish by (simp add: Inr found reloadAliases_def Let_def)
  qed
  then show ?thesis by simp
qed


lemma put_all_snoc:
  "put_all m (entries @ [(key, v, now)]) = setCachedResolution now (put_all m entries) key v"
  by (simp add: put_all_def)

lemma put_all_length:
  "length (performanceCache m) \<le> 1000 \<Longrightarrow> length (performanceCache (put_all m entries)) \<le> 1000"
proof (induction entries rule: rev_induct)
  case Nil
  then show ?case by (simp add: put_all_def)
next
  case (snoc x xs)
  obtain k v t where x: "x = (k, v, t)" by (cases x) auto
  show ?case unfolding x put_all_snoc using snoc by (intro setCached_length) simp
qed











section \<open>Every reachable state is well formed\<close>

lemma setCached_ok: "cache_ok m \<Longrightarrow> cache_ok (setCachedResolution now m key v)"
  by (simp add: cache_ok_def setCached_length setCached_distinct)

lemma isPathMatchesAlias_ok: "cache_ok m \<Longrightarrow> cache_ok (snd (isPathMatchesAlias now m path a))"
proof -
  assume ok: "cache_ok m"
  let ?g = "getCachedResolution now m (match_key path a)"
  have g: "cache_ok (snd ?g)" using ok by (simp add: cache_ok_def getCached_frame)
  show ?thesis
    using g setCached_ok [OF g]
    by (simp add: isPathMatchesAlias_def Let_def split_beta)
qed

lemma resolve_loop_ok:
  "cache_ok m \<Longrightarrow> cache_ok (snd (resolve_loop cwd now m request parent as))"
proof (induction as arbitrary: m)
  case Nil
  then show ?case by simp
next
  case (Cons a as)
  have "cache_ok (snd (isPathMatchesAlias now m request a))"
    using Cons.prems by (rule isPathMatchesAlias_ok)
  then show ?case using Cons.IH
    by (simp add: split_beta cache_ok_def apply_target_frame)
qed

lemma resolveAlias_ok: "cache_ok m \<Longrightarrow> cache_ok (snd (resolveAlias cwd now m request parent))"
proof -
  assume ok: "cache_ok m"
  let ?m0 = "m\<lparr>stats := (stats m)\<lparr>resolutions := resolutions (stats m) + 1\<rparr>\<rparr>"
  let ?g = "getCachedResolution now ?m0 (resolve_key request parent)"
  have g: "cache_ok (snd ?g)" using ok by (simp add: cache_ok_def getCached_frame)
  let ?r = "resolve_loop cwd now (snd ?g) request parent (sortedAliases (snd ?g))"
  have r: "cache_ok (snd ?r)" using g by (rule resolve_loop_ok)
  show ?thesis
    using g r setCached_ok [OF r]
    by (simp add: resolveAlias_def Let_def split_beta split: sum.splits)
qed

lemma addAlias_ok: "cache_ok m \<Longrightarrow> cache_ok (snd (addAlias m a t))"
  using addAlias_invalidates [of m a t] by (auto simp: cache_ok_def)

lemma addAliases_ok: "cache_ok m \<Longrightarrow> cache_ok (snd (addAliases m aliases))"
  using addAliases_invalidates [of m aliases] by (auto simp: cache_ok_def)

lemma reloadAliases_ok: "cache_ok m \<Longrightarrow> cache_ok (reloadAliases m required base)"
  using reload_invalidates [of m required base] by (auto simp: cache_ok_def)

lemma resolve_loop_frame:
  "moduleAliases (snd (resolve_loop cwd now m request parent as)) = moduleAliases m"
  "moduleAliasNames (snd (resolve_loop cwd now m request parent as)) = moduleAliasNames m"
  by (induction as arbitrary: m)
     (simp_all add: split_beta apply_target_frame isPathMatchesAlias_frame)

lemma resolveAlias_frame:
  "moduleAliases (snd (resolveAlias cwd now m request parent)) = moduleAliases m"
  "moduleAliasNames (snd (resolveAlias cwd now m request parent)) = moduleAliasNames m"
  by (simp_all add: resolveAlias_def Let_def split_beta getCached_frame setCached_frame
      resolve_loop_frame split: sum.splits)

lemma addAlias_table_ok: "table_ok m \<Longrightarrow> table_ok (snd (addAlias m a t))"
  by (simp add: addAlias_def table_ok_def Let_def)

lemma addAliases_loop_table_ok: "table_ok m \<Longrightarrow> table_ok (snd (addAliases_loop m ps))"
proof (induction ps arbitrary: m)
  case Nil
  then show ?case by simp
next
  case (Cons x ps)
  obtain a t where x: "x = (a, t)" by (cases x)
  have "table_ok (snd (addAlias m (JStr a) t))" using Cons.prems by (rule addAlias_table_ok)
  then show ?case using Cons.IH [of "snd (addAlias m (JStr a) t)"] Cons.prems
    by (cases "addAlias m (JStr a) t") (auto simp: x split: option.splits)
qed

lemma addAliases_table_ok: "table_ok m \<Longrightarrow> table_ok (snd (addAliases m aliases))"
  by (simp add: addAliases_def addAliases_loop_table_ok)

lemma reload_loop_table_ok: "table_ok m \<Longrightarrow> table_ok (snd (reload_loop m base ps))"
proof (induction ps arbitrary: m)
  case Nil
  then show ?case by simp
next
  case (Cons x ps)
  obtain a t where x: "x = (a, t)" by (cases x)
  show ?case
  proof (cases "reload_target base t")
    case (Inl err)
    then show ?thesis using Cons.prems by (simp add: x)
  next
    case (Inr t')
    have "table_ok (snd (addAlias m (JStr a) t'))" using Cons.prems by (rule addAlias_table_ok)
    then show ?thesis using Inr Cons.IH [of "snd (addAlias m (JStr a) t')"] Cons.prems
      by (cases "addAlias m (JStr a) t'") (auto simp: x split: option.splits)
  qed
qed

lemma reloadAliases_table_ok: "table_ok m \<Longrightarrow> table_ok (reloadAliases m required base)"
proof (cases required)
  case (Inl err)
  assume "table_ok m"
  then show ?thesis by (simp add: Inl reloadAliases_def reload_failed_def log_error_def table_ok_def)
next
  case (Inr packageJson)
  let ?m1 = "m\<lparr>moduleAliases := [], moduleAliasNames := [], performanceCache := []\<rparr>"
  have m1: "table_ok ?m1" by (simp add: table_ok_def object_keys_def)
  have finish: "table_ok
      (case reload_loop ?m1 base ps of
         (Some err, m2) \<Rightarrow> reload_failed m2 err
       | (None, m2) \<Rightarrow> m2)" for ps
  proof -
    obtain r m2 where l: "reload_loop ?m1 base ps = (r, m2)"
      by (cases "reload_loop ?m1 base ps")
    have "table_ok (snd (reload_loop ?m1 base ps))" using m1 by (rule reload_loop_table_ok)
    then have "table_ok m2" by (simp add: l)
    then show ?thesis by (cases r) (simp_all add: l reload_failed_def log_error_def table_ok_def)
  qed
  show ?thesis
  proof (cases "get_prop packageJson ''_moduleAliases''")
    case (Inl err)
    then show ?thesis using m1
      by (simp add: Inr reloadAliases_def reload_failed_def log_error_def table_ok_def)
  next
    case found: (Inr found)
    show ?thesis using finish by (simp add: Inr found reloadAliases_def Let_def)
  qed
qed

lemma reachable_invariant: "reachable m \<Longrightarrow> cache_ok m \<and> table_ok m"
proof (induction rule: reachable.induct)
  case constructed
  then show ?case by (simp add: cache_ok_def table_ok_def new_manager_def object_keys_def)
next
  case (resolved m cwd now request parent)
  then show ?case by (simp add: resolveAlias_ok table_ok_def resolveAlias_frame)
next
  case (matched m now path a)
  then show ?case by (simp add: isPathMatchesAlias_ok table_ok_def isPathMatchesAlias_frame)
next
  case (cached m now key v)
  then show ?case by (simp add: setCached_ok table_ok_def setCached_frame)
next
  case (added m a target)
  then show ?case by (simp add: addAlias_ok addAlias_table_ok)
next
  case (added_many m aliases)
  then show ?case by (simp add: addAliases_ok addAliases_table_ok)
next
  case (reloaded m required base)
  then show ?case by (simp add: reloadAliases_ok reloadAliases_table_ok)
next
  case (path_added m path)
  then show ?case
    by (auto simp: addPath_def cache_ok_def table_ok_def split: sum.splits if_splits)
next
  case (was_reset m)
  then show ?case by (simp add: reset_def cache_ok_def table_ok_def object_keys_def)
qed

section \<open>Validation of search paths, and reset\<close>

text \<open>
  C9. Malformed input is to be refused at the call. \<open>addPath\<close> normalises its argument
  before it checks it, and the normal form of the empty string is \<open>.\<close>: the call with the
  empty string returns without an error and registers \<open>.\<close> as a search path.
\<close>

theorem addPath_empty_string_accepted:
  "addPath new_manager (JStr []) = (None, new_manager\<lparr>modulePaths := [''.'']\<rparr>)"
  by (simp add: addPath_def new_manager_def path_defs)

theorem addPath_empty_string_accepted_witness:
  "fst (addPath new_manager (JStr [])) = None
   \<and> modulePaths (snd (addPath new_manager (JStr []))) = [''.'']"
  using addPath_empty_string_accepted by simp

text \<open>
  C10. \<open>reset\<close> also puts the three counters back to zero, so the statistics read right
  after it are zero in all six fields.
\<close>

theorem reset_zeroes_stats:
  "getStats (reset m) =
     \<lparr>resolutions = 0, cacheHits = 0, aliasMatches = 0, cacheSize = 0, aliasCount = 0,
      pathCount = 0\<rparr>"
  by (simp add: getStats_def reset_def)

section \<open>Further properties\<close>

text \<open>
  The matcher's computation is the specified predicate, for every pair of strings, and the
  matcher returns it whenever the store holds no live entry under the key of the pair;
  the three pairs of the specification come out as stated.
\<close>

theorem matcher_computes_spec:
  "path_matches path alias = spec_matches path alias
   \<and> (\<not> cache_live now m (match_key path alias) \<longrightarrow>
        fst (isPathMatchesAlias now m path alias) = JBool (spec_matches path alias))"
proof (intro conjI impI)
  show "path_matches path alias = spec_matches path alias" by (rule path_matches_spec)
next
  assume "\<not> cache_live now m (match_key path alias)"
  then have "getCachedResolution now m (match_key path alias) = (JNull, m)"
    by (rule getCached_miss)
  then show "fst (isPathMatchesAlias now m path alias) = JBool (spec_matches path alias)"
    by (simp add: isPathMatchesAlias_value path_matches_spec)
qed

theorem matcher_computes_spec_witness:
  "fst (isPathMatchesAlias 0 new_manager ''@foobar/x'' ''@foo'') = JBool False
   \<and> fst (isPathMatchesAlias 0 new_manager ''@foo/x'' ''@foo'') = JBool True
   \<and> fst (isPathMatchesAlias 0 new_manager ''@foo'' ''@foo'') = JBool True"
proof -
  have miss: "\<not> cache_live 0 new_manager k" for k
    by (simp add: cache_live_def new_manager_def)
  have "fst (isPathMatchesAlias 0 new_manager ''@foobar/x'' ''@foo'') = JBool (spec_matches ''@foobar/x'' ''@foo'')"
    and "fst (isPathMatchesAlias 0 new_manager ''@foo/x'' ''@foo'') = JBool (spec_matches ''@foo/x'' ''@foo'')"
    and "fst (isPathMatchesAlias 0 new_manager ''@foo'' ''@foo'') = JBool (spec_matches ''@foo'' ''@foo'')"
    using matcher_computes_spec [of _ _ 0 new_manager] miss by blast+
  then show ?thesis by (simp add: spec_matches_def char_at_def)
qed

text \<open>
  A request that no registered alias covers comes back unchanged whenever the answer is
  computed: the store holds no live entry under the resolver's key for the request, and its
  entries under the matcher's keys for the request agree with the matcher.
\<close>

theorem pass_through_when_computed:
  assumes "list_all (\<lambda>a. \<not> path_matches request a) (moduleAliasNames m)"
    and "\<not> cache_live now m (resolve_key request parent)"
    and "match_cache_sound m request"
  shows "fst (resolveAlias cwd now m request parent) = Inr (JStr request)"
proof -
  have "find (path_matches request) (sortedAliases m) = None"
    using assms(1) by (simp add: sortedAliases_def find_None_iff list_all_iff)
  then show ?thesis using resolveAlias_computed(1) [OF assms(2,3), of cwd] by simp
qed

theorem pass_through_when_computed_witness:
  "fst (resolveAlias ''/'' 0 two_aliases ''lodash'' None) = Inr (JStr ''lodash'')
   \<and> fst (resolveAlias ''/'' 0 two_aliases ''@ab/c'' None) = Inr (JStr ''@ab/c'')"
proof -
  have 1: "fst (resolveAlias ''/'' 0 two_aliases ''lodash'' None) = Inr (JStr ''lodash'')"
    by (rule pass_through_when_computed)
       (simp_all add: two_aliases_eq new_manager_def match_defs cache_live_def
          match_cache_sound_def entries_sound_def)
  have 2: "fst (resolveAlias ''/'' 0 two_aliases ''@ab/c'' None) = Inr (JStr ''@ab/c'')"
    by (rule pass_through_when_computed)
       (simp_all add: two_aliases_eq new_manager_def match_defs cache_live_def
          match_cache_sound_def entries_sound_def)
  show ?thesis using 1 2 by simp
qed

text \<open>
  Every state the interface reaches from a new manager keeps the store within its capacity
  with one entry for each key, and keeps the list of alias names equal to the keys of the
  table.
\<close>

theorem reachable_states_well_formed:
  assumes "reachable m"
  shows "cache_ok m \<and> table_ok m"
  using assms by (rule reachable_invariant)

theorem reachable_states_well_formed_witness:
  "cache_ok (snd (resolveAlias ''/'' 0 (snd (addAlias new_manager (JStr ''@a'') (JStr ''/x'')))
      ''@a/z'' None))
   \<and> table_ok (snd (resolveAlias ''/'' 0 (snd (addAlias new_manager (JStr ''@a'') (JStr ''/x'')))
      ''@a/z'' None))"
  by (rule reachable_states_well_formed) (intro reachable.intros)

text \<open>
  \<open>addAlias\<close> checks the name and the target before it changes anything: a name that is
  not a string or is empty, and a target that is empty or neither a string nor a function,
  are refused with a \<open>TypeError\<close> and the manager stays as it was. \<open>addPath\<close> refuses
  what is not a string.
\<close>

theorem addAlias_validates:
  "((\<not> truthy alias \<or> typeof alias \<noteq> TString) \<longrightarrow>
      addAlias m alias target = (Some (JsTypeError ''Alias must be a non-empty string''), m))
   \<and> (truthy alias \<and> typeof alias = TString
        \<and> (\<not> truthy target \<or> (typeof target \<noteq> TString \<and> typeof target \<noteq> TFunction)) \<longrightarrow>
      addAlias m alias target
        = (Some (JsTypeError ''Target must be a non-empty string or function''), m))
   \<and> (typeof path \<noteq> TString \<longrightarrow> addPath m path = (Some invalid_path_arg, m))"
proof (intro conjI impI)
  assume "typeof path \<noteq> TString"
  then show "addPath m path = (Some invalid_path_arg, m)"
    by (cases path) (simp_all add: addPath_def)
qed (auto simp: addAlias_def)

theorem addAlias_validates_witness:
  "addAlias two_aliases (JStr []) (JStr ''/x'')
     = (Some (JsTypeError ''Alias must be a non-empty string''), two_aliases)
   \<and> addAlias two_aliases (JNum 3) (JStr ''/x'')
     = (Some (JsTypeError ''Alias must be a non-empty string''), two_aliases)
   \<and> addAlias two_aliases (JStr ''@c'') (JStr [])
     = (Some (JsTypeError ''Target must be a non-empty string or function''), two_aliases)
   \<and> addAlias two_aliases (JStr ''@c'') (JObj [])
     = (Some (JsTypeError ''Target must be a non-empty string or function''), two_aliases)
   \<and> addPath two_aliases JUndefined = (Some invalid_path_arg, two_aliases)"
proof -
  note v = addAlias_validates [of _ two_aliases]
  have "addAlias two_aliases (JStr []) (JStr ''/x'')
     = (Some (JsTypeError ''Alias must be a non-empty string''), two_aliases)"
    using v [of "JStr []" "JStr ''/x''"] by simp
  moreover have "addAlias two_aliases (JNum 3) (JStr ''/x'')
     = (Some (JsTypeError ''Alias must be a non-empty string''), two_aliases)"
    using v [of "JNum 3" "JStr ''/x''"] by simp
  moreover have "addAlias two_aliases (JStr ''@c'') (JStr [])
     = (Some (JsTypeError ''Target must be a non-empty string or function''), two_aliases)"
    using v [of "JStr ''@c''" "JStr []"] by simp
  moreover have "addAlias two_aliases (JStr ''@c'') (JObj [])
     = (Some (JsTypeError ''Target must be a non-empty string or function''), two_aliases)"
    using v [of "JStr ''@c''" "JObj []"] by simp
  moreover have "addPath two_aliases JUndefined = (Some invalid_path_arg, two_aliases)"
    using v [of _ _ JUndefined] by simp
  ultimately show ?thesis by blast
qed

end
